theory Spec2Isabelle
  imports Complex_Main "HOL-Library.Word"
begin

unbundle bit_operations_syntax

section \<open>Data model\<close>

text \<open>
  \<^verbatim>\<open>Matrix<T>\<close> (Matrix.hpp) holds \<^verbatim>\<open>int m_rows, m_cols\<close> and a row-major
  \<^verbatim>\<open>std::vector<T> m_data\<close>. The dimensions are non-negative 32-bit C++ ints; they are
  modelled as naturals, and \<open>Matrix_inv\<close> below records what a Matrix object built by the
  library satisfies: the dimensions and their product \<^verbatim>\<open>rows * cols\<close> fit an int, and the
  vector has \<open>m_rows * m_cols\<close> elements. Under \<open>Matrix_inv\<close> no index computation
  \<^verbatim>\<open>row * m_cols + col\<close> inside the matrix overflows.
\<close>

record 'a Matrix =
  m_rows :: nat
  m_cols :: nat
  m_data :: "'a list"

definition INT_MAX :: nat where
  "INT_MAX = 2147483647"

definition Matrix_inv :: "'a Matrix \<Rightarrow> bool" where
  "Matrix_inv M \<longleftrightarrow>
     m_rows M \<le> INT_MAX \<and> m_cols M \<le> INT_MAX \<and> m_rows M * m_cols M \<le> INT_MAX \<and>
     length (m_data M) = m_rows M * m_cols M"

text \<open>
  The exceptions of the core, told apart by what they report, and two outcomes that are
  not exceptions: \<open>IntOverflow\<close>, a signed overflow of an int computation (undefined
  behaviour in C++: the call yields no result), and \<open>DivisionByZero\<close>, which marks a zero
  divisor in \<^verbatim>\<open>solve\<close>.
\<close>

datatype error =
  DimensionMismatch | IncompatibleDimensions | SingularMatrix nat | IntOverflow | DivisionByZero

definition bindE :: "'e + 'a \<Rightarrow> ('a \<Rightarrow> 'e + 'b) \<Rightarrow> 'e + 'b" where
  "bindE m f = (case m of Inl e \<Rightarrow> Inl e | Inr x \<Rightarrow> f x)"

text \<open>
  \<^verbatim>\<open>Matrix(int rows, int cols)\<close> builds \<^verbatim>\<open>m_data(rows * cols, 0)\<close>: the element count is
  an int product, which must not overflow; then the matrix is zero-filled.
\<close>

definition zeros :: "nat \<Rightarrow> nat \<Rightarrow> 'a::zero Matrix" where
  "zeros rows cols = \<lparr>m_rows = rows, m_cols = cols, m_data = replicate (rows * cols) 0\<rparr>"

definition Matrix_new :: "nat \<Rightarrow> nat \<Rightarrow> error + 'a::zero Matrix" where
  "Matrix_new rows cols = (if rows * cols \<le> INT_MAX then Inr (zeros rows cols) else Inl IntOverflow)"

text \<open>
  \<^verbatim>\<open>operator()(row, col)\<close> reads and writes \<^verbatim>\<open>m_data[row * m_cols + col]\<close> unchecked.
  An index past the vector is undefined behaviour in the source; in the model such a
  read is unspecified and such a write changes nothing, and every theorem below is
  about accesses inside the vector.
\<close>

definition elem :: "'a Matrix \<Rightarrow> nat \<Rightarrow> nat \<Rightarrow> 'a" where
  "elem M row col = m_data M ! (row * m_cols M + col)"

definition put :: "'a Matrix \<Rightarrow> nat \<Rightarrow> nat \<Rightarrow> 'a \<Rightarrow> 'a Matrix" where
  "put M row col v = M\<lparr>m_data := (m_data M)[row * m_cols M + col := v]\<rparr>"

section \<open>Helper.hpp: nextPowerOfTwo\<close>

text \<open>
  \<^verbatim>\<open>size_t\<close> is a 64-bit unsigned integer: \<^verbatim>\<open>power <<= 1\<close> wraps to 0 after 64 shifts.
  The \<^verbatim>\<open>while\<close> loop need not terminate, so it is a partial function whose value
  \<open>None\<close> means that the loop runs forever.
\<close>

type_synonym size_t = "64 word"

partial_function (option) nextPowerOfTwo_loop :: "size_t \<Rightarrow> size_t \<Rightarrow> size_t option" where
  "nextPowerOfTwo_loop pw n =
     (if pw < n then nextPowerOfTwo_loop (push_bit 1 pw) n else Some pw)"

declare nextPowerOfTwo_loop.simps [code]

definition nextPowerOfTwo :: "size_t \<Rightarrow> size_t option" where
  "nextPowerOfTwo n =
     (if n = 0 then Some 1
      else if n AND (n - 1) = 0 then Some n
      else nextPowerOfTwo_loop 1 n)"

section \<open>Matrix.hpp and Product.hpp\<close>

text \<open>\<^verbatim>\<open>operator+\<close> and \<^verbatim>\<open>operator-\<close>: the shape check, then the element loops.\<close>

definition operator_add :: "'a::ring Matrix \<Rightarrow> 'a Matrix \<Rightarrow> error + 'a Matrix" where
  "operator_add A B =
     (if m_rows A \<noteq> m_rows B \<or> m_cols A \<noteq> m_cols B then Inl DimensionMismatch
      else bindE (Matrix_new (m_rows A) (m_cols A)) (\<lambda>result.
        Inr (fold (\<lambda>i. fold (\<lambda>j result. put result i j (elem A i j + elem B i j))
                         [0..<m_cols A])
               [0..<m_rows A] result)))"

definition operator_sub :: "'a::ring Matrix \<Rightarrow> 'a Matrix \<Rightarrow> error + 'a Matrix" where
  "operator_sub A B =
     (if m_rows A \<noteq> m_rows B \<or> m_cols A \<noteq> m_cols B then Inl DimensionMismatch
      else bindE (Matrix_new (m_rows A) (m_cols A)) (\<lambda>result.
        Inr (fold (\<lambda>i. fold (\<lambda>j result. put result i j (elem A i j - elem B i j))
                         [0..<m_cols A])
               [0..<m_rows A] result)))"

definition getSubMatrix :: "'a::zero Matrix \<Rightarrow> nat \<Rightarrow> nat \<Rightarrow> nat \<Rightarrow> error + 'a Matrix" where
  "getSubMatrix A startRow startCol sz =
     bindE (Matrix_new sz sz) (\<lambda>sub.
       Inr (fold (\<lambda>i. fold (\<lambda>j sub. put sub i j (elem A (startRow + i) (startCol + j)))
                        [0..<m_cols sub])
              [0..<m_rows sub] sub))"

definition setSubMatrix :: "'a Matrix \<Rightarrow> nat \<Rightarrow> nat \<Rightarrow> 'a Matrix \<Rightarrow> 'a Matrix" where
  "setSubMatrix this startRow startCol sub =
     fold (\<lambda>i. fold (\<lambda>j this. put this (startRow + i) (startCol + j) (elem sub i j))
                    [0..<m_cols sub])
       [0..<m_rows sub] this"

definition matrixPadding :: "'a::zero Matrix \<Rightarrow> nat \<Rightarrow> error + 'a Matrix" where
  "matrixPadding A newSize =
     (if newSize = m_rows A \<and> newSize = m_cols A then Inr A
      else bindE (Matrix_new newSize newSize) (\<lambda>padded.
        Inr (fold (\<lambda>i. fold (\<lambda>j padded.
                      if i < m_rows A \<and> j < m_cols A then put padded i j (elem A i j)
                      else put padded i j 0)
                    [0..<newSize])
               [0..<newSize] padded)))"

definition matrixUnpadding :: "'a::zero Matrix \<Rightarrow> nat \<Rightarrow> nat \<Rightarrow> error + 'a Matrix" where
  "matrixUnpadding this rows cols =
     bindE (Matrix_new rows cols) (\<lambda>result.
       Inr (fold (\<lambda>i. fold (\<lambda>j result. put result i j (elem this i j)) [0..<cols])
              [0..<rows] result))"

text \<open>The classical product, loops in the order i, k, j, accumulating into \<open>result\<close>.\<close>

definition matrixMultiply :: "'a::ring Matrix \<Rightarrow> 'a Matrix \<Rightarrow> error + 'a Matrix" where
  "matrixMultiply A B =
     bindE (Matrix_new (m_rows A) (m_cols B)) (\<lambda>result.
       Inr (fold (\<lambda>i. fold (\<lambda>k result.
                   let tmp = elem A i k in
                   fold (\<lambda>j result. put result i j (elem result i j + tmp * elem B k j))
                     [0..<m_cols B] result)
                 [0..<m_cols A])
              [0..<m_rows A] result))"

text \<open>Shape and contents of a matrix, for stating what an operation returns.\<close>

definition shaped :: "'a Matrix \<Rightarrow> nat \<Rightarrow> nat \<Rightarrow> bool" where
  "shaped M r c \<longleftrightarrow>
     m_rows M = r \<and> m_cols M = c \<and> length (m_data M) = r * c \<and> r * c \<le> INT_MAX"

definition is_mat :: "'a Matrix \<Rightarrow> nat \<Rightarrow> nat \<Rightarrow> (nat \<Rightarrow> nat \<Rightarrow> 'a) \<Rightarrow> bool" where
  "is_mat M R C f \<longleftrightarrow> shaped M R C \<and> (\<forall>i<R. \<forall>j<C. elem M i j = f i j)"

lemma bindE_cong [fundef_cong]:
  "m = m' \<Longrightarrow> (\<And>x. m' = Inr x \<Longrightarrow> f x = f' x) \<Longrightarrow> bindE m f = bindE m' f'"
  by (auto simp: bindE_def split: sum.splits)

lemma bindE_Inr_iff:
  "(bindE m f = Inr y) = (\<exists>x. m = Inr x \<and> f x = Inr y)"
  by (cases m) (simp_all add: bindE_def)

lemma m_rows_put [simp]: "m_rows (put M r c v) = m_rows M"
  and m_cols_put [simp]: "m_cols (put M r c v) = m_cols M"
  and length_put [simp]: "length (m_data (put M r c v)) = length (m_data M)"
  by (simp_all add: put_def)

lemma m_rows_zeros [simp]: "m_rows (zeros r c) = r"
  and m_cols_zeros [simp]: "m_cols (zeros r c) = c"
  and length_zeros [simp]: "length (m_data (zeros r c)) = r * c"
  by (simp_all add: zeros_def)

lemma Matrix_new_Inr_iff: "(Matrix_new r c = Inr M) = (r * c \<le> INT_MAX \<and> M = zeros r c)"
  by (auto simp: Matrix_new_def)

lemma shape_fold_put:
  assumes "\<And>x M. m_rows (f x M) = m_rows M \<and> m_cols (f x M) = m_cols M
             \<and> length (m_data (f x M)) = length (m_data M)"
  shows "m_rows (fold f xs M) = m_rows M \<and> m_cols (fold f xs M) = m_cols M
           \<and> length (m_data (fold f xs M)) = length (m_data M)"
  by (induction xs arbitrary: M) (simp_all add: assms)

lemma shape_fold_fold_put:
  assumes "\<And>i j M. m_rows (f i j M) = m_rows M \<and> m_cols (f i j M) = m_cols M
             \<and> length (m_data (f i j M)) = length (m_data M)"
  shows "m_rows (fold (\<lambda>i. fold (f i) ys) xs M) = m_rows M"
  by (intro shape_fold_put [THEN conjunct1] shape_fold_put assms)

lemma m_rows_operator_add: "operator_add A B = Inr C \<Longrightarrow> m_rows C = m_rows A"
  unfolding operator_add_def
  by (auto split: if_splits simp: shape_fold_fold_put bindE_Inr_iff Matrix_new_Inr_iff)

lemma m_rows_operator_sub: "operator_sub A B = Inr C \<Longrightarrow> m_rows C = m_rows A"
  unfolding operator_sub_def
  by (auto split: if_splits simp: shape_fold_fold_put bindE_Inr_iff Matrix_new_Inr_iff)

lemma m_rows_getSubMatrix: "getSubMatrix A r c s = Inr S \<Longrightarrow> m_rows S = s"
  unfolding getSubMatrix_def
  by (auto simp: shape_fold_fold_put bindE_Inr_iff Matrix_new_Inr_iff)

text \<open>
  Strassen's product. Every construction of a matrix and each \<^verbatim>\<open>operator+\<close> and
  \<^verbatim>\<open>operator-\<close> of the source may fail, so the body is a chain of \<open>bindE\<close>.
\<close>

function strassenMultiply :: "'a::ring Matrix \<Rightarrow> 'a Matrix \<Rightarrow> error + 'a Matrix" where
  "strassenMultiply A B =
     (let n = m_rows A; treshold = 64; newSize = n div 2 in
      if n \<le> treshold then matrixMultiply A B
      else
        bindE (getSubMatrix A 0 0 newSize) (\<lambda>A11.
        bindE (getSubMatrix A 0 newSize newSize) (\<lambda>A12.
        bindE (getSubMatrix A newSize 0 newSize) (\<lambda>A21.
        bindE (getSubMatrix A newSize newSize newSize) (\<lambda>A22.
        bindE (getSubMatrix B 0 0 newSize) (\<lambda>B11.
        bindE (getSubMatrix B 0 newSize newSize) (\<lambda>B12.
        bindE (getSubMatrix B newSize 0 newSize) (\<lambda>B21.
        bindE (getSubMatrix B newSize newSize newSize) (\<lambda>B22.
        bindE (bindE (operator_add A11 A22) (\<lambda>L. bindE (operator_add B11 B22) (strassenMultiply L))) (\<lambda>M1.
        bindE (bindE (operator_add A21 A22) (\<lambda>L. strassenMultiply L B11)) (\<lambda>M2.
        bindE (bindE (operator_sub B12 B22) (strassenMultiply A11)) (\<lambda>M3.
        bindE (bindE (operator_sub B21 B11) (strassenMultiply A22)) (\<lambda>M4.
        bindE (bindE (operator_add A11 A12) (\<lambda>L. strassenMultiply L B22)) (\<lambda>M5.
        bindE (bindE (operator_sub A21 A11) (\<lambda>L. bindE (operator_add B11 B12) (strassenMultiply L))) (\<lambda>M6.
        bindE (bindE (operator_sub A12 A22) (\<lambda>L. bindE (operator_add B21 B22) (strassenMultiply L))) (\<lambda>M7.
        bindE (bindE (bindE (operator_add M1 M4) (\<lambda>X. operator_sub X M5)) (\<lambda>X. operator_add X M7)) (\<lambda>C11.
        bindE (operator_add M3 M5) (\<lambda>C12.
        bindE (operator_add M2 M4) (\<lambda>C21.
        bindE (bindE (bindE (operator_sub M1 M2) (\<lambda>X. operator_add X M3)) (\<lambda>X. operator_add X M6)) (\<lambda>C22.
        bindE (Matrix_new n n) (\<lambda>C.
        let C = setSubMatrix C 0 0 C11;
            C = setSubMatrix C 0 newSize C12;
            C = setSubMatrix C newSize 0 C21;
            C = setSubMatrix C newSize newSize C22
        in Inr C)))))))))))))))))))))"
  by pat_completeness auto
termination
  by (relation "measure (\<lambda>(A, B). m_rows A)")
    (auto dest!: m_rows_operator_add m_rows_operator_sub m_rows_getSubMatrix)

declare strassenMultiply.simps [simp del]

text \<open>
  \<^verbatim>\<open>operator*\<close>. Its second half is the recursive path: \<^verbatim>\<open>nextPowerOfTwo\<close> may not return
  (\<open>None\<close>), and its \<^verbatim>\<open>size_t\<close> result is stored in \<^verbatim>\<open>int paddedSize\<close>: a value above
  \<open>INT_MAX\<close> becomes a negative size, whose square overflows in the next
  \<^verbatim>\<open>Matrix(newSize, newSize)\<close>. The int products \<^verbatim>\<open>m_cols * m_rows\<close> of the threshold
  test are the element counts of the operands, which fit an int under \<open>Matrix_inv\<close>.
\<close>

definition recursive_path :: "'a::ring Matrix \<Rightarrow> 'a Matrix \<Rightarrow> (error + 'a Matrix) option" where
  "recursive_path this other =
     (let maxDim = max (max (max (m_rows this) (m_cols this)) (m_rows other)) (m_cols other) in
      case nextPowerOfTwo (of_nat maxDim) of
        None \<Rightarrow> None
      | Some p \<Rightarrow>
          if INT_MAX < unat p then Some (Inl IntOverflow)
          else
            let paddedSize = unat p in
            Some (bindE (matrixPadding this paddedSize) (\<lambda>APadded.
                  bindE (matrixPadding other paddedSize) (\<lambda>BPadded.
                  bindE (strassenMultiply APadded BPadded) (\<lambda>CPadded.
                  matrixUnpadding CPadded (m_rows this) (m_cols other))))))"

definition operator_mul :: "'a::ring Matrix \<Rightarrow> 'a Matrix \<Rightarrow> (error + 'a Matrix) option" where
  "operator_mul this other =
     (if m_cols this \<noteq> m_rows other then Some (Inl IncompatibleDimensions)
      else let treshold = 64 in
        if m_cols this * m_rows this < treshold \<or> m_cols other * m_rows other < treshold
        then Some (matrixMultiply this other)
        else recursive_path this other)"

section \<open>LinearSolver.hpp\<close>

record 'a LUResult =
  LU :: "'a Matrix"
  P :: "nat list"
  toggleSign :: int

text \<open>
  \<^verbatim>\<open>decomposeLU\<close> receives its argument by reference and works on the local
  \<^verbatim>\<open>result\<close>. To tell the caller's matrix from the working copy, Matrix objects
  live in a store addressed by position: the argument is the address \<open>a\<close> of an
  existing object, and \<^verbatim>\<open>result.LU\<close> is a new object at the first free address \<open>r\<close>.
  \<^verbatim>\<open>result.P\<close> and \<^verbatim>\<open>result.toggleSign\<close> are the other two fields of the state.
\<close>

record 'a lu_state =
  heap :: "'a Matrix list"
  res_P :: "nat list"
  res_toggleSign :: int

definition LU_get :: "nat \<Rightarrow> 'a lu_state \<Rightarrow> nat \<Rightarrow> nat \<Rightarrow> 'a" where
  "LU_get r s i j = elem (heap s ! r) i j"

definition LU_put :: "nat \<Rightarrow> 'a lu_state \<Rightarrow> nat \<Rightarrow> nat \<Rightarrow> 'a \<Rightarrow> 'a lu_state" where
  "LU_put r s i j v = s\<lparr>heap := (heap s)[r := put (heap s ! r) i j v]\<rparr>"

text \<open>The tolerance \<^verbatim>\<open>1e-15\<close>; the element type is a linearly ordered field (exact arithmetic).\<close>

definition tol :: "'a::linordered_field" where
  "tol = 1 / 10 ^ 15"

text \<open>The search for the row of largest magnitude in column \<open>i\<close>, from row \<open>i\<close> down.\<close>

definition find_pivot :: "nat \<Rightarrow> nat \<Rightarrow> nat \<Rightarrow> 'a::linordered_field lu_state \<Rightarrow> nat" where
  "find_pivot r dimn i s =
     fst (fold (\<lambda>j (maxIndex, maxVal).
                 if \<bar>LU_get r s j i\<bar> > maxVal then (j, \<bar>LU_get r s j i\<bar>)
                 else (maxIndex, maxVal))
            [i + 1..<dimn] (i, \<bar>LU_get r s i i\<bar>))"

text \<open>The body of \<^verbatim>\<open>if (maxIndex != i)\<close>: the swap loop starts at column \<open>i\<close>.\<close>

definition swap_rows :: "nat \<Rightarrow> nat \<Rightarrow> nat \<Rightarrow> nat \<Rightarrow> 'a lu_state \<Rightarrow> 'a lu_state" where
  "swap_rows r dimn i maxIndex s =
     (let s = fold (\<lambda>j s.
                let tmp = LU_get r s i j;
                    s = LU_put r s i j (LU_get r s maxIndex j)
                in LU_put r s maxIndex j tmp)
              [i..<dimn] s;
          tmp = res_P s ! i;
          s = s\<lparr>res_P := (res_P s)[i := res_P s ! maxIndex]\<rparr>;
          s = s\<lparr>res_P := (res_P s)[maxIndex := tmp]\<rparr>
      in s\<lparr>res_toggleSign := res_toggleSign s * (- 1)\<rparr>)"

definition pivot :: "nat \<Rightarrow> nat \<Rightarrow> nat \<Rightarrow> 'a::linordered_field lu_state \<Rightarrow> 'a lu_state" where
  "pivot r dimn i s =
     (let maxIndex = find_pivot r dimn i s in
      if maxIndex \<noteq> i then swap_rows r dimn i maxIndex s else s)"

definition eliminate :: "nat \<Rightarrow> nat \<Rightarrow> nat \<Rightarrow> 'a::linordered_field lu_state \<Rightarrow> 'a lu_state" where
  "eliminate r dimn i s =
     fold (\<lambda>j s.
        let mult = LU_get r s j i / LU_get r s i i;
            s = LU_put r s j i mult
        in fold (\<lambda>k s. LU_put r s j k (LU_get r s j k - mult * LU_get r s i k))
             [i + 1..<dimn] s)
       [i + 1..<dimn] s"

text \<open>One pass of the outer loop. A throw carries the state it leaves behind.\<close>

definition lu_step ::
  "nat \<Rightarrow> nat \<Rightarrow> nat \<Rightarrow> 'a::linordered_field lu_state \<Rightarrow> (error \<times> 'a lu_state) + 'a lu_state" where
  "lu_step r dimn i s =
     (let s = pivot r dimn i s in
      if \<bar>LU_get r s i i\<bar> < tol then Inl (SingularMatrix i, s)
      else Inr (eliminate r dimn i s))"

text \<open>A \<^verbatim>\<open>for\<close> loop whose body may throw: the first throw ends it.\<close>

fun for_steps :: "(nat \<Rightarrow> 's \<Rightarrow> 'e + 's) \<Rightarrow> nat list \<Rightarrow> 's \<Rightarrow> 'e + 's" where
  "for_steps body [] s = Inr s"
| "for_steps body (i # is) s =
     (case body i s of Inl e \<Rightarrow> Inl e | Inr s' \<Rightarrow> for_steps body is s')"

text \<open>
  The statements before the outer loop: \<^verbatim>\<open>result.LU = A\<close> copies the argument into the
  new object, \<^verbatim>\<open>result.P\<close> becomes the identity and \<^verbatim>\<open>result.toggleSign\<close> 1.
\<close>

definition lu_init :: "nat \<Rightarrow> 'a Matrix list \<Rightarrow> 'a lu_state" where
  "lu_init a h =
     (let dimn = m_rows (h ! a) in
      \<lparr>heap = h @ [h ! a],
       res_P = fold (\<lambda>i p. p[i := i]) [0..<dimn] (replicate dimn 0),
       res_toggleSign = 1\<rparr>)"

text \<open>
  The call: the outcome, and the store the caller finds afterwards (the local is gone,
  its value returned by copy).
\<close>

definition decomposeLU ::
  "nat \<Rightarrow> 'a::linordered_field Matrix list \<Rightarrow> (error + 'a LUResult) \<times> 'a Matrix list" where
  "decomposeLU a h =
     (let dimn = m_rows (h ! a); r = length h in
      case for_steps (lu_step r dimn) [0..<dimn] (lu_init a h) of
        Inl (e, s) \<Rightarrow> (Inl e, take r (heap s))
      | Inr s \<Rightarrow>
          (Inr \<lparr>LU = heap s ! r, P = res_P s, toggleSign = res_toggleSign s\<rparr>,
           take r (heap s)))"

text \<open>
  \<^verbatim>\<open>solve\<close>. The source divides by \<^verbatim>\<open>LU(i,i)\<close> unconditionally; the model reports a zero
  divisor as \<open>DivisionByZero\<close>, so that its absence can be stated.
\<close>

definition solve :: "'a::linordered_field LUResult \<Rightarrow> 'a list \<Rightarrow> error + 'a list" where
  "solve m_LU b =
     (let dimn = m_rows (LU m_LU);
          pb = fold (\<lambda>i pb. pb[i := b ! (P m_LU ! i)]) [0..<dimn] (replicate dimn 0);
          y = fold (\<lambda>i y.
                 let sum = fold (\<lambda>j sum. sum + elem (LU m_LU) i j * y ! j) [0..<i] 0
                 in y[i := pb ! i - sum])
               [0..<dimn] (replicate dimn 0)
      in for_steps (\<lambda>i x.
             let sum = fold (\<lambda>j sum. sum + elem (LU m_LU) i j * x ! j) [i + 1..<dimn] 0
             in if elem (LU m_LU) i i = 0 then Inl DivisionByZero
                else Inr (x[i := (y ! i - sum) / elem (LU m_LU) i i]))
           (rev [0..<dimn]) (replicate dimn 0))"

text \<open>An outcome other than the incompatible-dimensions error.\<close>

definition not_incompatible :: "error + 'a \<Rightarrow> bool" where
  "not_incompatible m \<longleftrightarrow> m \<noteq> Inl IncompatibleDimensions"

text \<open>The state after the first \<open>k\<close> passes of the outer loop, and what every pass keeps.\<close>

definition lu_run :: "nat \<Rightarrow> 'a::linordered_field Matrix list \<Rightarrow> nat \<Rightarrow> (error \<times> 'a lu_state) + 'a lu_state" where
  "lu_run a h k = for_steps (lu_step (length h) (m_rows (h ! a))) [0..<k] (lu_init a h)"

definition lu_inv :: "nat \<Rightarrow> nat \<Rightarrow> 'a Matrix list \<Rightarrow> 'a lu_state \<Rightarrow> bool" where
  "lu_inv r dimn h s \<longleftrightarrow>
     length (heap s) = Suc r \<and> take r (heap s) = h \<and> shaped (heap s ! r) dimn dimn \<and>
     length (res_P s) = dimn \<and> distinct (res_P s) \<and> set (res_P s) = {0..<dimn}"

text \<open>
  The number of row swaps performed: the passes \<open>i\<close> that are reached and at which the
  search returns \<open>maxIndex \<noteq> i\<close>.
\<close>

definition swapped_at :: "nat \<Rightarrow> 'a::linordered_field Matrix list \<Rightarrow> nat \<Rightarrow> bool" where
  "swapped_at a h i =
     (case lu_run a h i of
        Inl e \<Rightarrow> False
      | Inr s \<Rightarrow> find_pivot (length h) (m_rows (h ! a)) i s \<noteq> i)"

definition swap_count :: "nat \<Rightarrow> 'a::linordered_field Matrix list \<Rightarrow> nat" where
  "swap_count a h = length (filter (swapped_at a h) [0..<m_rows (h ! a)])"

text \<open>
  The factors packed in \<open>LU\<close> as the specification reads them, their product, and the
  row-permuted input.
\<close>

definition spec_L :: "'a::linordered_field LUResult \<Rightarrow> nat \<Rightarrow> nat \<Rightarrow> 'a" where
  "spec_L res i j = (if j < i then elem (LU res) i j else if j = i then 1 else 0)"

definition spec_U :: "'a::linordered_field LUResult \<Rightarrow> nat \<Rightarrow> nat \<Rightarrow> 'a" where
  "spec_U res i j = (if i \<le> j then elem (LU res) i j else 0)"

definition spec_LU_product :: "'a::linordered_field LUResult \<Rightarrow> nat \<Rightarrow> nat \<Rightarrow> 'a" where
  "spec_LU_product res i j =
     sum_list (map (\<lambda>k. spec_L res i k * spec_U res k j) [0..<m_rows (LU res)])"

definition spec_PA :: "'a Matrix \<Rightarrow> 'a LUResult \<Rightarrow> nat \<Rightarrow> nat \<Rightarrow> 'a" where
  "spec_PA A res i j = elem A (P res ! i) j"

section \<open>nextPowerOfTwo\<close>

lemma and_pred_nat:
  fixes m :: nat
  shows "0 < m \<Longrightarrow> (m AND (m - 1) = 0) = (\<exists>k. m = 2 ^ k)"
proof (induction m rule: less_induct)
  case (less m)
  show ?case
  proof (cases "even m")
    case True
    then obtain q where q: "m = 2 * q" by (auto elim: evenE)
    with less.prems have q0: "0 < q" by simp
    have pred: "m - 1 = 2 * (q - 1) + 1" using q q0 by simp
    have d: "m div 2 = q" "(m - 1) div 2 = q - 1" using q pred by simp_all
    have "m AND (m - 1) = of_bool (odd m \<and> odd (m - 1)) + 2 * ((m div 2) AND ((m - 1) div 2))"
      by (rule and_rec)
    then have "m AND (m - 1) = 2 * (q AND (q - 1))"
      using True by (simp only: d) simp
    moreover have "(q AND (q - 1) = 0) = (\<exists>k. q = 2 ^ k)"
      using less.IH [of q] q q0 by simp
    moreover have "(\<exists>k. q = 2 ^ k) = (\<exists>k. m = 2 ^ k)"
    proof
      assume "\<exists>k. q = 2 ^ k"
      then obtain k where "q = 2 ^ k" ..
      then have "m = 2 ^ Suc k" using q by simp
      then show "\<exists>k. m = 2 ^ k" ..
    next
      assume "\<exists>k. m = 2 ^ k"
      then obtain k where k: "m = 2 ^ k" ..
      with True less.prems have "k \<noteq> 0" by (cases k) auto
      then obtain k' where "k = Suc k'" by (cases k) auto
      with k q have "q = 2 ^ k'" by simp
      then show "\<exists>k. q = 2 ^ k" ..
    qed
    ultimately show ?thesis by simp
  next
    case False
    then obtain q where q: "m = 2 * q + 1" by (auto elim: oddE)
    have d: "m div 2 = q" "(m - 1) div 2 = q" "even (m - 1)" using q by simp_all
    have "m AND (m - 1) = of_bool (odd m \<and> odd (m - 1)) + 2 * ((m div 2) AND ((m - 1) div 2))"
      by (rule and_rec)
    then have "m AND (m - 1) = 2 * (q AND q)"
      using d(3) by (simp only: d) simp
    then have l: "(m AND (m - 1) = 0) = (q = 0)" by simp
    have r: "(\<exists>k. m = 2 ^ k) = (q = 0)"
    proof
      assume "\<exists>k. m = 2 ^ k"
      then obtain k where k: "m = 2 ^ k" ..
      with False have "k = 0" by (cases k) auto
      with k q show "q = 0" by simp
    next
      assume "q = 0"
      with q have "m = 2 ^ 0" by simp
      then show "\<exists>k. m = 2 ^ k" ..
    qed
    show ?thesis using l r by simp
  qed
qed

lemma unat_and_pred:
  fixes n :: size_t
  assumes "n \<noteq> 0"
  shows "unat (n AND (n - 1)) = unat n AND (unat n - 1)"
proof -
  have "unat (n - 1) = unat n - 1"
    using assms by (simp add: unat_minus_one)
  then show ?thesis by (simp add: unsigned_and_eq)
qed

lemma and_pred_word:
  fixes n :: size_t
  assumes "n \<noteq> 0"
  shows "(n AND (n - 1) = 0) = (\<exists>k. unat n = 2 ^ k)"
proof -
  have pos: "0 < unat n" using assms by (simp add: unat_gt_0)
  have "(n AND (n - 1) = 0) = (unat (n AND (n - 1)) = 0)"
    by (simp add: unat_eq_0)
  also have "\<dots> = (unat n AND (unat n - 1) = 0)"
    by (simp add: unat_and_pred [OF assms])
  also have "\<dots> = (\<exists>k. unat n = 2 ^ k)"
    by (rule and_pred_nat [OF pos])
  finally show ?thesis .
qed


lemma unat_2p: "k < 64 \<Longrightarrow> unat (2 ^ k :: size_t) = 2 ^ k"
proof -
  assume k: "k < 64"
  have "(2::nat) ^ k < 2 ^ 64" using k by (intro power_strict_increasing) simp_all
  moreover have "(2 ^ k :: size_t) = of_nat (2 ^ k)" by simp
  ultimately show ?thesis by (simp only: unat_of_nat) simp
qed

lemma push_bit_2p: "push_bit 1 (2 ^ j :: size_t) = 2 ^ Suc j"
  by (simp add: push_bit_eq_mult)

lemma nextPowerOfTwo_loop_returns:
  fixes n :: size_t
  assumes "unat n \<le> 2 ^ 63"
  shows "d = 63 - j \<Longrightarrow> j \<le> 63 \<Longrightarrow> j = 0 \<or> 2 ^ (j - 1) < unat n \<Longrightarrow>
    \<exists>k\<le>63. nextPowerOfTwo_loop (2 ^ j) n = Some (2 ^ k) \<and> unat n \<le> 2 ^ k
      \<and> (k = 0 \<or> 2 ^ (k - 1) < unat n)"
proof (induction d arbitrary: j)
  case 0
  then have j: "j = 63" by simp
  have "\<not> (2 ^ j :: size_t) < n"
    using assms by (simp add: word_less_nat_alt unat_2p j)
  then have "nextPowerOfTwo_loop (2 ^ j) n = Some (2 ^ j)"
    by (subst nextPowerOfTwo_loop.simps) simp
  with 0 assms j show ?case by (intro exI [of _ j]) simp
next
  case (Suc d)
  then have j: "j < 63" by simp
  show ?case
  proof (cases "(2 ^ j :: size_t) < n")
    case True
    then have lt: "2 ^ j < unat n" using j by (simp add: word_less_nat_alt unat_2p)
    have "\<exists>k\<le>63. nextPowerOfTwo_loop (2 ^ Suc j) n = Some (2 ^ k) \<and> unat n \<le> 2 ^ k
      \<and> (k = 0 \<or> 2 ^ (k - 1) < unat n)"
      using Suc.prems j lt by (intro Suc.IH) auto
    moreover have "nextPowerOfTwo_loop (2 ^ j) n = nextPowerOfTwo_loop (2 ^ Suc j) n"
      using True by (subst nextPowerOfTwo_loop.simps) (simp only: push_bit_2p if_True)
    ultimately show ?thesis by simp
  next
    case False
    then have ge: "unat n \<le> 2 ^ j" using j by (simp add: word_less_nat_alt unat_2p)
    have "nextPowerOfTwo_loop (2 ^ j) n = Some (2 ^ j)"
      using False by (subst nextPowerOfTwo_loop.simps) simp
    moreover have "j \<le> 63" using j by simp
    ultimately show ?thesis using ge Suc.prems by (intro exI [of _ j]) simp
  qed
qed

lemma nextPowerOfTwo_loop_diverges_aux:
  fixes n :: size_t
  shows "nextPowerOfTwo_loop pw n = Some y \<Longrightarrow>
    \<not> (2 ^ 63 < unat n \<and> (pw = 0 \<or> (\<exists>j<64. pw = 2 ^ j)))"
proof (rule nextPowerOfTwo_loop.raw_induct
    [where P = "\<lambda>pw n y. \<not> (2 ^ 63 < unat n \<and> (pw = 0 \<or> (\<exists>j<64. pw = 2 ^ j)))"], goal_cases)
  case (1 loop pw n y)
  show ?case
  proof
    assume a: "2 ^ 63 < unat n \<and> (pw = 0 \<or> (\<exists>j<64. pw = 2 ^ j))"
    then have big: "2 ^ 63 < unat n" by simp
    have lt: "pw < n"
    proof -
      from a consider "pw = 0" | j where "j < 64" "pw = 2 ^ j" by auto
      then show ?thesis
      proof cases
        case 1
        with big show ?thesis by (simp add: word_less_nat_alt)
      next
        case 2
        then have "j \<le> 63" by simp
        then have "(2::nat) ^ j \<le> 2 ^ 63" by (rule power_increasing) simp
        with 2 big show ?thesis by (simp add: word_less_nat_alt unat_2p)
      qed
    qed
    have nxt: "push_bit 1 pw = 0 \<or> (\<exists>j<64. push_bit 1 pw = 2 ^ j)"
    proof -
      from a consider "pw = 0" | j where "j < 64" "pw = 2 ^ j" by auto
      then show ?thesis
      proof cases
        case 1
        then show ?thesis by simp
      next
        case 2
        show ?thesis
        proof (cases "j = 63")
          case True
          with 2 have "push_bit 1 pw = (2 ^ 64 :: size_t)" by (simp add: push_bit_eq_mult)
          then have "push_bit 1 pw = 0" by simp
          then show ?thesis ..
        next
          case False
          with 2 have "Suc j < 64" "push_bit 1 pw = 2 ^ Suc j" by (simp_all add: push_bit_eq_mult)
          then show ?thesis by blast
        qed
      qed
    qed
    from 1(3) lt have "loop (push_bit 1 pw) n = Some y" by simp
    from 1(2) [OF this] big nxt show False by blast
  qed
qed

lemma nextPowerOfTwo_loop_diverges:
  fixes n :: size_t
  assumes "2 ^ 63 < unat n"
  shows "nextPowerOfTwo_loop 1 n = None"
proof (cases "nextPowerOfTwo_loop 1 n")
  case None
  then show ?thesis .
next
  case (Some y)
  have "\<exists>j<64. (1::size_t) = 2 ^ j" by (rule exI [of _ 0]) simp
  with nextPowerOfTwo_loop_diverges_aux [OF Some] assms show ?thesis by blast
qed

lemma nextPowerOfTwo_pow2:
  assumes "k < 64"
  shows "nextPowerOfTwo (2 ^ k) = Some (2 ^ k)"
proof -
  have nz: "(2 ^ k :: size_t) \<noteq> 0" using assms by simp
  have "unat (2 ^ k :: size_t) = 2 ^ k" using assms by (rule unat_2p)
  then have "\<exists>j. unat (2 ^ k :: size_t) = 2 ^ j" ..
  then have "(2 ^ k :: size_t) AND (2 ^ k - 1) = 0" by (simp only: and_pred_word [OF nz])
  then show ?thesis using nz by (simp add: nextPowerOfTwo_def)
qed

lemma nextPowerOfTwo_other:
  fixes n :: size_t
  assumes pos: "0 < unat n" and le: "unat n \<le> 2 ^ 63" and np: "\<forall>k. unat n \<noteq> 2 ^ k"
  shows "\<exists>k<64. nextPowerOfTwo n = Some (2 ^ k) \<and> unat n < 2 ^ k \<and> (\<forall>j. unat n < 2 ^ j \<longrightarrow> k \<le> j)"
proof -
  have nz: "n \<noteq> 0" using pos by (auto simp: unat_gt_0)
  have "n AND (n - 1) \<noteq> 0" using np by (simp add: and_pred_word [OF nz])
  then have loop: "nextPowerOfTwo n = nextPowerOfTwo_loop 1 n"
    using nz by (simp add: nextPowerOfTwo_def)
  have "\<exists>k\<le>63. nextPowerOfTwo_loop (2 ^ 0) n = Some (2 ^ k) \<and> unat n \<le> 2 ^ k
      \<and> (k = 0 \<or> 2 ^ (k - 1) < unat n)"
    by (rule nextPowerOfTwo_loop_returns [OF le, of 63 0]) simp_all
  then obtain k where k: "k \<le> 63" "nextPowerOfTwo_loop 1 n = Some (2 ^ k)" "unat n \<le> 2 ^ k"
    "k = 0 \<or> 2 ^ (k - 1) < unat n" by auto
  have lt: "unat n < 2 ^ k" using k(3) np by (auto simp: le_less)
  have least: "k \<le> j" if "unat n < 2 ^ j" for j
  proof (rule ccontr)
    assume "\<not> k \<le> j"
    then have jk: "j \<le> k - 1" and "k \<noteq> 0" by simp_all
    with k(4) have "2 ^ (k - 1) < unat n" by simp
    moreover have "(2::nat) ^ j \<le> 2 ^ (k - 1)" using jk by (intro power_increasing) simp_all
    ultimately have "2 ^ j < unat n" by (rule le_less_trans [rotated])
    with that show False by (rule less_asym)
  qed
  show ?thesis
    using k(1,2) lt least loop by (intro exI [of _ k]) simp
qed

text \<open>
  C4, as stated, fails: the claim covers every \<open>n > 0\<close> that is not a power of two, but
  for such \<open>n\<close> above \<open>2^63\<close> no power of two above \<open>n\<close> fits \<^verbatim>\<open>size_t\<close>; \<^verbatim>\<open>power\<close>
  wraps to 0 and the loop never returns. At \<open>n = 2^63 + 1\<close>:
\<close>

theorem nextPowerOfTwo_large_counterexample:
  "nextPowerOfTwo 9223372036854775809 = None"
proof -
  have "nextPowerOfTwo_loop 1 (9223372036854775809 :: size_t) = None"
    by (rule nextPowerOfTwo_loop_diverges) simp
  then show ?thesis by (simp add: nextPowerOfTwo_def)
qed

text \<open>
  C4, amended: \<open>nextPowerOfTwo 0 = 1\<close>; \<open>nextPowerOfTwo n = n\<close> for every power of two
  \<open>n\<close>; and for every other \<open>n\<close> with \<open>0 < n \<le> 2^63\<close> the call returns the smallest power
  of two strictly greater than \<open>n\<close>.
\<close>

theorem nextPowerOfTwo_spec:
  "nextPowerOfTwo 0 = Some 1 \<and>
   (\<forall>k<64. nextPowerOfTwo (2 ^ k) = Some (2 ^ k)) \<and>
   (\<forall>n. 0 < unat n \<and> unat n \<le> 2 ^ 63 \<and> (\<forall>k. unat n \<noteq> 2 ^ k) \<longrightarrow>
      (\<exists>k<64. nextPowerOfTwo n = Some (2 ^ k) \<and> unat n < 2 ^ k \<and>
         (\<forall>j. unat n < 2 ^ j \<longrightarrow> k \<le> j)))"
proof (intro conjI allI impI)
  show "nextPowerOfTwo 0 = Some 1" by (simp add: nextPowerOfTwo_def)
next
  fix k :: nat assume "k < 64"
  then show "nextPowerOfTwo (2 ^ k) = Some (2 ^ k)" by (rule nextPowerOfTwo_pow2)
next
  fix n :: size_t
  assume "0 < unat n \<and> unat n \<le> 2 ^ 63 \<and> (\<forall>k. unat n \<noteq> 2 ^ k)"
  then show "\<exists>k<64. nextPowerOfTwo n = Some (2 ^ k) \<and> unat n < 2 ^ k \<and>
         (\<forall>j. unat n < 2 ^ j \<longrightarrow> k \<le> j)"
    by (intro nextPowerOfTwo_other) simp_all
qed

theorem nextPowerOfTwo_spec_witness:
  "nextPowerOfTwo 0 = Some 1 \<and> nextPowerOfTwo 8 = Some 8 \<and> nextPowerOfTwo 5 = Some 8"
proof -
  have np: "\<forall>k. unat (5 :: size_t) \<noteq> 2 ^ k"
  proof
    fix k :: nat
    show "unat (5 :: size_t) \<noteq> 2 ^ k"
    proof
      assume e: "unat (5 :: size_t) = 2 ^ k"
      have "odd (unat (5 :: size_t))" by simp
      with e have "odd ((2::nat) ^ k)" by simp
      then have "k = 0" by simp
      with e show False by simp
    qed
  qed
  have "(3::nat) < 64" by simp
  with nextPowerOfTwo_spec have "nextPowerOfTwo ((2::size_t) ^ 3) = Some (2 ^ 3)" by blast
  then have p8: "nextPowerOfTwo 8 = Some 8" by simp
  have "0 < unat (5 :: size_t) \<and> unat (5 :: size_t) \<le> 2 ^ 63 \<and> (\<forall>k. unat (5 :: size_t) \<noteq> 2 ^ k)"
    using np by simp
  with nextPowerOfTwo_spec obtain k where k: "k < 64" "nextPowerOfTwo 5 = Some (2 ^ k)"
    "unat (5 :: size_t) < 2 ^ k" "\<forall>j. unat (5 :: size_t) < 2 ^ j \<longrightarrow> k \<le> j"
    by blast
  from k(4) have "unat (5 :: size_t) < 2 ^ 3 \<longrightarrow> k \<le> 3" by blast
  then have "k \<le> 3" by simp
  then consider "k = 0" | "k = 1" | "k = 2" | "k = 3" by linarith
  then have "k = 3" using k(3) by cases simp_all
  with k(2) have "nextPowerOfTwo 5 = Some 8" by simp
  with p8 nextPowerOfTwo_spec show ?thesis by simp
qed

section \<open>The matrix container\<close>

lemma shaped_zeros [simp]: "r * c \<le> INT_MAX \<Longrightarrow> shaped (zeros r c) r c"
  by (simp add: shaped_def)

lemma Matrix_new_fits [simp]: "r * c \<le> INT_MAX \<Longrightarrow> Matrix_new r c = Inr (zeros r c)"
  by (simp add: Matrix_new_def)

lemma Matrix_new_overflow: "INT_MAX < r * c \<Longrightarrow> Matrix_new r c = Inl IntOverflow"
  by (simp add: Matrix_new_def)

lemma bindE_Inr [simp]: "bindE (Inr x) f = f x"
  and bindE_Inl [simp]: "bindE (Inl e) f = Inl e"
  by (simp_all add: bindE_def)

lemma shaped_fits: "shaped M R C \<Longrightarrow> R * C \<le> INT_MAX"
  by (simp add: shaped_def)

lemma fits_mono: "R * C \<le> INT_MAX \<Longrightarrow> r \<le> R \<Longrightarrow> c \<le> C \<Longrightarrow> r * c \<le> INT_MAX"
  using mult_le_mono [of r R c C] by simp

lemma shaped_put [simp]: "shaped (put M r c v) R C = shaped M R C"
  by (simp add: shaped_def)

lemma shapedD: "shaped M R C \<Longrightarrow> m_rows M = R" "shaped M R C \<Longrightarrow> m_cols M = C"
  by (simp_all add: shaped_def)

lemma flat_index_less:
  fixes r c R C :: nat
  assumes "r < R" "c < C"
  shows "r * C + c < R * C"
proof -
  have "r * C + c < r * C + C" using assms by simp
  also have "\<dots> = Suc r * C" by simp
  also have "\<dots> \<le> R * C" using assms by (intro mult_le_mono1) simp
  finally show ?thesis .
qed

lemma flat_index_inj:
  fixes r c r' c' C :: nat
  assumes "c < C" "c' < C"
  shows "(r * C + c = r' * C + c') = (r = r' \<and> c = c')"
proof
  assume e: "r * C + c = r' * C + c'"
  have "(r * C + c) div C = r" "(r' * C + c') div C = r'" using assms by simp_all
  with e have "r = r'" by metis
  with e show "r = r' \<and> c = c'" by simp
qed simp

lemma elem_zeros [simp]: "r < R \<Longrightarrow> c < C \<Longrightarrow> elem (zeros R C) r c = 0"
  by (simp add: elem_def zeros_def flat_index_less)

lemma elem_put:
  assumes "shaped M R C" "r < R" "c < C" "r' < R" "c' < C"
  shows "elem (put M r c v) r' c' = (if r' = r \<and> c' = c then v else elem M r' c')"
proof -
  have "r * C + c < length (m_data M)"
    using assms by (simp add: shaped_def flat_index_less)
  moreover have "(r * C + c = r' * C + c') = (r = r' \<and> c = c')"
    using assms by (intro flat_index_inj)
  ultimately show ?thesis
    using assms(1) by (auto simp: elem_def put_def shaped_def nth_list_update)
qed

lemma Matrix_eqI:
  fixes M N :: "'a Matrix"
  assumes "shaped M R C" "shaped N R C"
    and "\<And>i j. i < R \<Longrightarrow> j < C \<Longrightarrow> elem M i j = elem N i j"
  shows "M = N"
proof -
  have "m_data M = m_data N"
  proof (rule nth_equalityI)
    show "length (m_data M) = length (m_data N)" using assms by (simp add: shaped_def)
  next
    fix k assume "k < length (m_data M)"
    then have k: "k < R * C" using assms by (simp add: shaped_def)
    then have C: "0 < C" by (cases C) auto
    have "k div C < R" using k C by (simp add: less_mult_imp_div_less)
    moreover have "k mod C < C" using C by simp
    ultimately have "elem M (k div C) (k mod C) = elem N (k div C) (k mod C)"
      by (rule assms(3))
    then show "m_data M ! k = m_data N ! k"
      using assms(1,2) by (simp add: elem_def shaped_def)
  qed
  then show ?thesis using assms(1,2) by (simp add: shaped_def)
qed

text \<open>One row segment written with values that do not depend on the matrix.\<close>

lemma fill_row:
  assumes "shaped M R C" "r < R" "c0 + n \<le> C"
  shows "shaped (fold (\<lambda>j M. put M r (c0 + j) (f j)) [0..<n] M) R C \<and>
    (\<forall>r'<R. \<forall>c'<C. elem (fold (\<lambda>j M. put M r (c0 + j) (f j)) [0..<n] M) r' c' =
       (if r' = r \<and> c0 \<le> c' \<and> c' < c0 + n then f (c' - c0) else elem M r' c'))"
  using assms(3)
proof (induction n)
  case 0
  show ?case using assms by auto
next
  case (Suc n)
  let ?N = "fold (\<lambda>j M. put M r (c0 + j) (f j)) [0..<n] M"
  from Suc have IH: "shaped ?N R C"
    "\<And>r' c'. r' < R \<Longrightarrow> c' < C \<Longrightarrow> elem ?N r' c' =
       (if r' = r \<and> c0 \<le> c' \<and> c' < c0 + n then f (c' - c0) else elem M r' c')"
    by simp_all
  have c: "c0 + n < C" using Suc.prems by simp
  show ?case
  proof (intro conjI allI impI)
    show "shaped (fold (\<lambda>j M. put M r (c0 + j) (f j)) [0..<Suc n] M) R C"
      using IH(1) by simp
  next
    fix r' c' assume rc: "r' < R" "c' < C"
    have "elem (put ?N r (c0 + n) (f n)) r' c' =
        (if r' = r \<and> c' = c0 + n then f n else elem ?N r' c')"
      using IH(1) assms(2) c rc by (rule elem_put)
    then show "elem (fold (\<lambda>j M. put M r (c0 + j) (f j)) [0..<Suc n] M) r' c' =
       (if r' = r \<and> c0 \<le> c' \<and> c' < c0 + Suc n then f (c' - c0) else elem M r' c')"
      using IH(2) [OF rc] by (auto simp: less_Suc_eq)
  qed
qed

lemma fill_block:
  assumes "shaped M R C" "r0 + m \<le> R" "c0 + n \<le> C"
  shows "shaped (fold (\<lambda>i. fold (\<lambda>j M. put M (r0 + i) (c0 + j) (f i j)) [0..<n]) [0..<m] M) R C \<and>
    (\<forall>r'<R. \<forall>c'<C.
       elem (fold (\<lambda>i. fold (\<lambda>j M. put M (r0 + i) (c0 + j) (f i j)) [0..<n]) [0..<m] M) r' c' =
       (if r0 \<le> r' \<and> r' < r0 + m \<and> c0 \<le> c' \<and> c' < c0 + n then f (r' - r0) (c' - c0)
        else elem M r' c'))"
  using assms(2)
proof (induction m)
  case 0
  show ?case using assms by auto
next
  case (Suc m)
  let ?N = "fold (\<lambda>i. fold (\<lambda>j M. put M (r0 + i) (c0 + j) (f i j)) [0..<n]) [0..<m] M"
  from Suc have IH: "shaped ?N R C"
    "\<And>r' c'. r' < R \<Longrightarrow> c' < C \<Longrightarrow> elem ?N r' c' =
       (if r0 \<le> r' \<and> r' < r0 + m \<and> c0 \<le> c' \<and> c' < c0 + n then f (r' - r0) (c' - c0)
        else elem M r' c')"
    by simp_all
  have r: "r0 + m < R" using Suc.prems by simp
  note row = fill_row [OF IH(1) r assms(3), of "f m"]
  show ?case
  proof (intro conjI allI impI)
    show "shaped (fold (\<lambda>i. fold (\<lambda>j M. put M (r0 + i) (c0 + j) (f i j)) [0..<n]) [0..<Suc m] M) R C"
      using row by simp
  next
    fix r' c' assume rc: "r' < R" "c' < C"
    show "elem (fold (\<lambda>i. fold (\<lambda>j M. put M (r0 + i) (c0 + j) (f i j)) [0..<n]) [0..<Suc m] M) r' c' =
       (if r0 \<le> r' \<and> r' < r0 + Suc m \<and> c0 \<le> c' \<and> c' < c0 + n then f (r' - r0) (c' - c0)
        else elem M r' c')"
      using row rc IH(2) [OF rc] by (auto simp: less_Suc_eq)
  qed
qed


lemma is_mat_elem: "shaped M R C \<Longrightarrow> is_mat M R C (elem M)"
  by (simp add: is_mat_def)


lemma is_mat_cong:
  "is_mat M R C f \<Longrightarrow> (\<And>i j. i < R \<Longrightarrow> j < C \<Longrightarrow> f i j = g i j) \<Longrightarrow> is_mat M R C g"
  by (simp add: is_mat_def)

lemma is_mat_unique:
  assumes "is_mat M R C f" "is_mat N R C f"
  shows "M = N"
  using assms by (intro Matrix_eqI [of M R C N]) (simp_all add: is_mat_def)

lemma is_mat_fill:
  assumes "shaped M R C"
  shows "is_mat (fold (\<lambda>i. fold (\<lambda>j M. put M i j (f i j)) [0..<C]) [0..<R] M) R C f"
  using fill_block [of M R C 0 R 0 C f] assms by (simp add: is_mat_def)





lemma put_if: "(if b then put M i j x else put M i j y) = put M i j (if b then x else y)"
  by simp

lemma is_mat_matrixPadding:
  assumes "is_mat A R C f" "R \<le> p" "C \<le> p" "p * p \<le> INT_MAX"
  shows "\<exists>Z. matrixPadding A p = Inr Z \<and>
           is_mat Z p p (\<lambda>i j. if i < R \<and> j < C then f i j else 0)"
proof (cases "p = R \<and> p = C")
  case True
  then have "matrixPadding A p = Inr A"
    using assms(1) by (simp add: matrixPadding_def is_mat_def shaped_def)
  with assms(1) True show ?thesis by (auto simp: is_mat_def)
next
  case False
  have d: "m_rows A = R" "m_cols A = C" using assms(1) by (simp_all add: is_mat_def shaped_def)
  have "is_mat (fold (\<lambda>i. fold (\<lambda>j M. put M i j (if i < R \<and> j < C then elem A i j else 0))
          [0..<p]) [0..<p] (zeros p p)) p p (\<lambda>i j. if i < R \<and> j < C then elem A i j else 0)"
    by (rule is_mat_fill) (simp add: assms(4))
  then have "is_mat (fold (\<lambda>i. fold (\<lambda>j M. put M i j (if i < R \<and> j < C then elem A i j else 0))
          [0..<p]) [0..<p] (zeros p p)) p p (\<lambda>i j. if i < R \<and> j < C then f i j else 0)"
    using assms(1) by (elim is_mat_cong) (simp add: is_mat_def)
  then show ?thesis using False by (auto simp: matrixPadding_def d put_if assms(4))
qed

lemma is_mat_matrixUnpadding:
  assumes "is_mat M R C f" "r \<le> R" "c \<le> C"
  shows "\<exists>Z. matrixUnpadding M r c = Inr Z \<and> is_mat Z r c f"
proof -
  have "R * C \<le> INT_MAX" using assms(1) by (simp add: is_mat_def shaped_def)
  then have fits: "r * c \<le> INT_MAX" using assms(2,3) by (rule fits_mono)
  have "is_mat (fold (\<lambda>i. fold (\<lambda>j N. put N i j (elem M i j)) [0..<c]) [0..<r]
          (zeros r c)) r c (elem M)"
    by (rule is_mat_fill) (simp add: fits)
  then have "is_mat (fold (\<lambda>i. fold (\<lambda>j N. put N i j (elem M i j)) [0..<c]) [0..<r]
          (zeros r c)) r c f"
    using assms by (elim is_mat_cong) (simp add: is_mat_def)
  then show ?thesis by (simp add: matrixUnpadding_def fits)
qed

lemma Matrix_inv_shaped: "Matrix_inv M \<Longrightarrow> shaped M (m_rows M) (m_cols M)"
  by (simp add: Matrix_inv_def shaped_def)

text \<open>
  C5, as stated, fails: the claim covers every \<open>newSize\<close> from \<open>max (m_rows M) (m_cols M)\<close>
  on, but \<^verbatim>\<open>Matrix padded(newSize, newSize)\<close> computes \<open>newSize * newSize\<close> as an int.
  For the \<open>1 \<times> 1\<close> matrix \<open>[[7]]\<close> and \<open>newSize = 46341\<close> the product \<open>2147488281\<close> exceeds
  \<open>INT_MAX\<close> and no matrix comes back.
\<close>

theorem padding_overflow_counterexample:
  "bindE (matrixPadding \<lparr>m_rows = 1, m_cols = 1, m_data = [7 :: int]\<rparr> 46341)
     (\<lambda>padded. matrixUnpadding padded 1 1) = Inl IntOverflow"
  by (simp add: matrixPadding_def Matrix_new_def INT_MAX_def)

text \<open>
  C5, amended: for every matrix \<open>M\<close> and every \<open>newSize\<close> at least
  \<open>max (m_rows M) (m_cols M)\<close> whose square fits an int (\<open>newSize \<le> 46340\<close>), padding \<open>M\<close>
  to \<open>newSize \<times> newSize\<close> and unpadding the result to the shape of \<open>M\<close> gives back exactly
  \<open>M\<close>.
\<close>

theorem padding_round_trip:
  fixes M :: "'a::zero Matrix"
  assumes "Matrix_inv M" and "max (m_rows M) (m_cols M) \<le> newSize"
    and "newSize * newSize \<le> INT_MAX"
  shows "bindE (matrixPadding M newSize)
           (\<lambda>padded. matrixUnpadding padded (m_rows M) (m_cols M)) = Inr M"
proof -
  let ?R = "m_rows M" and ?C = "m_cols M"
  have sh: "shaped M ?R ?C" using assms(1) by (rule Matrix_inv_shaped)
  then have M: "is_mat M ?R ?C (elem M)" by (rule is_mat_elem)
  have le: "?R \<le> newSize" "?C \<le> newSize" using assms(2) by simp_all
  from is_mat_matrixPadding [OF M le assms(3)] obtain Z where
    Z: "matrixPadding M newSize = Inr Z"
      "is_mat Z newSize newSize (\<lambda>i j. if i < ?R \<and> j < ?C then elem M i j else 0)"
    by blast
  from is_mat_matrixUnpadding [OF Z(2) le] obtain U where
    U: "matrixUnpadding Z ?R ?C = Inr U"
      "is_mat U ?R ?C (\<lambda>i j. if i < ?R \<and> j < ?C then elem M i j else 0)"
    by blast
  from U(2) have "is_mat U ?R ?C (elem M)" by (rule is_mat_cong) simp
  then have "U = M" using M by (rule is_mat_unique)
  then show ?thesis by (simp add: Z(1) U(1))
qed

theorem padding_round_trip_witness:
  "bindE (matrixPadding \<lparr>m_rows = 2, m_cols = 3, m_data = [1, 2, 3, 4, 5, 6 :: int]\<rparr> 4)
     (\<lambda>padded. matrixUnpadding padded 2 3)
     = Inr \<lparr>m_rows = 2, m_cols = 3, m_data = [1, 2, 3, 4, 5, 6]\<rparr>"
  using padding_round_trip [of "\<lparr>m_rows = 2, m_cols = 3, m_data = [1, 2, 3, 4, 5, 6 :: int]\<rparr>" 4]
  by (simp add: Matrix_inv_def INT_MAX_def)

section \<open>The products\<close>





lemma strassen_base:
  "m_rows A \<le> 64 \<Longrightarrow> strassenMultiply A B = matrixMultiply A B"
  by (subst strassenMultiply.simps) (simp add: Let_def)






















subsection \<open>The errors of the product\<close>

lemma not_incompatible_Inr [simp]: "not_incompatible (Inr x)"
  by (simp add: not_incompatible_def)

lemma not_incompatible_bindE:
  "not_incompatible m \<Longrightarrow> (\<And>x. m = Inr x \<Longrightarrow> not_incompatible (f x)) \<Longrightarrow>
     not_incompatible (bindE m f)"
  by (cases m) (simp_all add: not_incompatible_def)

lemma not_incompatible_Matrix_new [simp]: "not_incompatible (Matrix_new r c)"
  by (simp add: Matrix_new_def not_incompatible_def)

lemma not_incompatible_add [simp]: "not_incompatible (operator_add A B)"
proof (cases "m_rows A \<noteq> m_rows B \<or> m_cols A \<noteq> m_cols B")
  case True
  then show ?thesis by (simp add: operator_add_def not_incompatible_def)
next
  case False
  then show ?thesis
    unfolding operator_add_def by (simp only: if_False) (intro not_incompatible_bindE, simp_all)
qed

lemma not_incompatible_sub [simp]: "not_incompatible (operator_sub A B)"
proof (cases "m_rows A \<noteq> m_rows B \<or> m_cols A \<noteq> m_cols B")
  case True
  then show ?thesis by (simp add: operator_sub_def not_incompatible_def)
next
  case False
  then show ?thesis
    unfolding operator_sub_def by (simp only: if_False) (intro not_incompatible_bindE, simp_all)
qed

lemma not_incompatible_getSubMatrix [simp]: "not_incompatible (getSubMatrix A r c s)"
  unfolding getSubMatrix_def by (intro not_incompatible_bindE) simp_all

lemma not_incompatible_matrixMultiply [simp]: "not_incompatible (matrixMultiply A B)"
  unfolding matrixMultiply_def by (intro not_incompatible_bindE) simp_all

lemma not_incompatible_matrixPadding [simp]: "not_incompatible (matrixPadding A p)"
  unfolding matrixPadding_def
  by (auto intro!: not_incompatible_bindE)

lemma not_incompatible_matrixUnpadding [simp]: "not_incompatible (matrixUnpadding A r c)"
  unfolding matrixUnpadding_def by (intro not_incompatible_bindE) simp_all

lemma not_incompatible_strassen:
  fixes A B :: "'a::ring Matrix"
  shows "not_incompatible (strassenMultiply A B)"
proof (induction "m_rows A" arbitrary: A B rule: less_induct)
  case less
  show ?case
  proof (cases "m_rows A \<le> 64")
    case True
    then show ?thesis by (simp add: strassen_base)
  next
    case False
    then have lt: "m_rows A div 2 < m_rows A" by simp
    have sub: "not_incompatible (strassenMultiply X Y)" if "m_rows X = m_rows A div 2"
      for X Y :: "'a Matrix"
      using that lt by (intro less) simp
    show ?thesis
      apply (subst strassenMultiply.simps)
      apply (simp only: Let_def False if_False)
      apply (intro not_incompatible_bindE not_incompatible_add not_incompatible_sub
          not_incompatible_getSubMatrix not_incompatible_Matrix_new
          not_incompatible_Inr sub)
                      apply (auto dest!: m_rows_operator_add m_rows_operator_sub m_rows_getSubMatrix)
      done
  qed
qed

text \<open>
  C6: \<open>operator*\<close> raises the incompatible-dimensions error if and only if the left
  operand's column count differs from the right operand's row count.
\<close>

theorem operator_mul_incompatible_iff:
  fixes A B :: "'a::ring Matrix"
  shows "(operator_mul A B = Some (Inl IncompatibleDimensions)) = (m_cols A \<noteq> m_rows B)"
proof (cases "m_cols A = m_rows B")
  case False
  then show ?thesis by (simp add: operator_mul_def)
next
  case True
  have mm: "matrixMultiply A B \<noteq> Inl IncompatibleDimensions"
    using not_incompatible_matrixMultiply [of A B] by (simp add: not_incompatible_def)
  have "recursive_path A B \<noteq> Some (Inl IncompatibleDimensions)"
  proof
    assume a: "recursive_path A B = Some (Inl IncompatibleDimensions)"
    then obtain p :: size_t where
      "bindE (matrixPadding A (unat p)) (\<lambda>APadded.
         bindE (matrixPadding B (unat p)) (\<lambda>BPadded.
         bindE (strassenMultiply APadded BPadded) (\<lambda>CPadded.
         matrixUnpadding CPadded (m_rows A) (m_cols B)))) = Inl IncompatibleDimensions"
      by (auto simp: recursive_path_def Let_def split: option.splits if_splits)
    moreover have "not_incompatible
      (bindE (matrixPadding A (unat p)) (\<lambda>APadded.
         bindE (matrixPadding B (unat p)) (\<lambda>BPadded.
         bindE (strassenMultiply APadded BPadded) (\<lambda>CPadded.
         matrixUnpadding CPadded (m_rows A) (m_cols B)))))"
      by (intro not_incompatible_bindE not_incompatible_strassen not_incompatible_matrixPadding
          not_incompatible_matrixUnpadding)
    ultimately show False by (simp add: not_incompatible_def)
  qed
  with True mm show ?thesis by (simp add: operator_mul_def Let_def)
qed

theorem operator_mul_incompatible_iff_witness:
  "operator_mul \<lparr>m_rows = 2, m_cols = 3, m_data = [1, 2, 3, 4, 5, 6 :: int]\<rparr>
       \<lparr>m_rows = 2, m_cols = 2, m_data = [5, 6, 7, 8]\<rparr> = Some (Inl IncompatibleDimensions) \<and>
   operator_mul \<lparr>m_rows = 2, m_cols = 2, m_data = [1, 2, 3, 4 :: int]\<rparr>
       \<lparr>m_rows = 2, m_cols = 2, m_data = [5, 6, 7, 8]\<rparr> \<noteq> Some (Inl IncompatibleDimensions)"
  using operator_mul_incompatible_iff [of "\<lparr>m_rows = 2, m_cols = 3, m_data = [1, 2, 3, 4, 5, 6 :: int]\<rparr>"
       "\<lparr>m_rows = 2, m_cols = 2, m_data = [5, 6, 7, 8]\<rparr>"]
    operator_mul_incompatible_iff [of "\<lparr>m_rows = 2, m_cols = 2, m_data = [1, 2, 3, 4 :: int]\<rparr>"
       "\<lparr>m_rows = 2, m_cols = 2, m_data = [5, 6, 7, 8]\<rparr>"]
  by simp

section \<open>decomposeLU and solve\<close>

lemma fold_inv:
  assumes "\<And>x s. x \<in> set xs \<Longrightarrow> Q s \<Longrightarrow> Q (f x s)" and "Q s"
  shows "Q (fold f xs s)"
  using assms by (induction xs arbitrary: s) simp_all

lemma for_steps_append:
  "for_steps body (xs @ ys) s =
     (case for_steps body xs s of Inl e \<Rightarrow> Inl e | Inr s' \<Rightarrow> for_steps body ys s')"
  by (induction xs arbitrary: s) (simp_all split: sum.splits)

lemma for_steps_snoc:
  "for_steps body (xs @ [x]) s =
     (case for_steps body xs s of Inl e \<Rightarrow> Inl e | Inr s' \<Rightarrow> body x s')"
  by (simp add: for_steps_append split: sum.splits)

lemma for_steps_upt_Suc:
  "for_steps body [0..<Suc k] s =
     (case for_steps body [0..<k] s of Inl e \<Rightarrow> Inl e | Inr s' \<Rightarrow> body k s')"
  by (simp add: for_steps_snoc)

lemma lu_run_0: "lu_run a h 0 = Inr (lu_init a h)"
  by (simp add: lu_run_def)

lemma lu_run_Suc:
  "lu_run a h (Suc k) =
     (case lu_run a h k of Inl e \<Rightarrow> Inl e
      | Inr s \<Rightarrow> lu_step (length h) (m_rows (h ! a)) k s)"
  by (simp add: lu_run_def for_steps_snoc)

subsection \<open>The store under the writes of decomposeLU\<close>

lemma heap_LU_put: "heap (LU_put r s i j v) = (heap s)[r := put (heap s ! r) i j v]"
  and res_P_LU_put [simp]: "res_P (LU_put r s i j v) = res_P s"
  and res_toggleSign_LU_put [simp]: "res_toggleSign (LU_put r s i j v) = res_toggleSign s"
  by (simp_all add: LU_put_def)

lemma lu_inv_LU_put: "lu_inv r dimn h s \<Longrightarrow> lu_inv r dimn h (LU_put r s i j v)"
  by (simp add: lu_inv_def heap_LU_put)

lemma find_pivot_bounds:
  assumes "i < dimn"
  shows "i \<le> find_pivot r dimn i s \<and> find_pivot r dimn i s < dimn"
proof -
  let ?f = "\<lambda>j (maxIndex, maxVal).
                 if \<bar>LU_get r s j i\<bar> > maxVal then (j, \<bar>LU_get r s j i\<bar>)
                 else (maxIndex, maxVal)"
  have "i \<le> fst (fold ?f [i + 1..<dimn] (i, \<bar>LU_get r s i i\<bar>)) \<and>
        fst (fold ?f [i + 1..<dimn] (i, \<bar>LU_get r s i i\<bar>)) < dimn"
    by (rule fold_inv [where Q = "\<lambda>p. i \<le> fst p \<and> fst p < dimn"])
      (use assms in \<open>auto split: prod.splits\<close>)
  then show ?thesis by (simp add: find_pivot_def)
qed

lemma swap_rows_fields:
  "heap (swap_rows r dimn i m s) =
     heap (fold (\<lambda>j s. LU_put r (LU_put r s i j (LU_get r s m j)) m j (LU_get r s i j)) [i..<dimn] s)"
  "res_P (swap_rows r dimn i m s) = (res_P s)[i := res_P s ! m, m := res_P s ! i]"
  "res_toggleSign (swap_rows r dimn i m s) = - res_toggleSign s"
proof -
  let ?g = "\<lambda>j s. LU_put r (LU_put r s i j (LU_get r s m j)) m j (LU_get r s i j)"
  have P: "res_P (fold ?g xs s) = res_P s" for xs
    by (rule fold_inv [where Q = "\<lambda>t. res_P t = res_P s"]) simp_all
  have T: "res_toggleSign (fold ?g xs s) = res_toggleSign s" for xs
    by (rule fold_inv [where Q = "\<lambda>t. res_toggleSign t = res_toggleSign s"]) simp_all
  show "heap (swap_rows r dimn i m s) = heap (fold ?g [i..<dimn] s)"
    by (simp add: swap_rows_def Let_def)
  show "res_P (swap_rows r dimn i m s) = (res_P s)[i := res_P s ! m, m := res_P s ! i]"
    by (simp add: swap_rows_def Let_def P)
  show "res_toggleSign (swap_rows r dimn i m s) = - res_toggleSign s"
    by (simp add: swap_rows_def Let_def T)
qed


lemma lu_inv_swap_rows:
  assumes "lu_inv r dimn h s" "i < dimn" "m < dimn"
  shows "lu_inv r dimn h (swap_rows r dimn i m s)"
proof -
  let ?g = "\<lambda>j s. LU_put r (LU_put r s i j (LU_get r s m j)) m j (LU_get r s i j)"
  have "lu_inv r dimn h (fold ?g [i..<dimn] s)"
    by (rule fold_inv [where Q = "lu_inv r dimn h"]) (simp_all add: lu_inv_LU_put assms(1))
  moreover have "distinct ((res_P s)[i := res_P s ! m, m := res_P s ! i])"
    using assms by (simp add: lu_inv_def)
  moreover have "set ((res_P s)[i := res_P s ! m, m := res_P s ! i]) = set (res_P s)"
    using assms by (simp add: lu_inv_def)
  ultimately show ?thesis
    using assms(1) by (simp add: lu_inv_def swap_rows_fields)
qed

lemma lu_inv_pivot:
  assumes "lu_inv r dimn h s" "i < dimn"
  shows "lu_inv r dimn h (pivot r dimn i s)"
  using assms find_pivot_bounds [OF assms(2), of r s]
  by (simp add: pivot_def Let_def lu_inv_swap_rows)

lemma res_P_fold:
  "(\<And>x s. res_P (f x s) = res_P s) \<Longrightarrow> res_P (fold f xs s) = res_P s"
  by (induction xs arbitrary: s) simp_all

lemma res_toggleSign_fold:
  "(\<And>x s. res_toggleSign (f x s) = res_toggleSign s) \<Longrightarrow>
     res_toggleSign (fold f xs s) = res_toggleSign s"
  by (induction xs arbitrary: s) simp_all

lemma eliminate_fields:
  "res_P (eliminate r dimn i s) = res_P s"
  "res_toggleSign (eliminate r dimn i s) = res_toggleSign s"
  unfolding eliminate_def Let_def
  by (simp_all add: res_P_fold res_toggleSign_fold)

lemma distinct_count_list_1: "distinct xs \<Longrightarrow> x \<in> set xs \<Longrightarrow> count_list xs x = 1"
  by (induction xs) (auto simp: count_list_0_iff)

lemma lu_inv_eliminate:
  assumes "lu_inv r dimn h s"
  shows "lu_inv r dimn h (eliminate r dimn i s)"
  unfolding eliminate_def
proof (rule fold_inv [where Q = "lu_inv r dimn h"])
  fix j t assume t: "lu_inv r dimn h t"
  let ?mult = "LU_get r t j i / LU_get r t i i"
  have "lu_inv r dimn h (fold (\<lambda>k s. LU_put r s j k (LU_get r s j k - ?mult * LU_get r s i k))
          [i + 1..<dimn] (LU_put r t j i ?mult))"
    by (rule fold_inv [where Q = "lu_inv r dimn h"]) (simp_all add: lu_inv_LU_put t)
  then show "lu_inv r dimn h
     (let mult = LU_get r t j i / LU_get r t i i; s = LU_put r t j i mult
      in fold (\<lambda>k s. LU_put r s j k (LU_get r s j k - mult * LU_get r s i k)) [i + 1..<dimn] s)"
    by (simp add: Let_def)
qed (rule assms)

lemma res_P_lu_init: "res_P (lu_init a h) = [0..<m_rows (h ! a)]"
proof -
  have "fold (\<lambda>i p. p[i := i]) [0..<k] (replicate n 0) = [0..<k] @ replicate (n - k) 0"
    if "k \<le> n" for k n :: nat
    using that
  proof (induction k)
    case 0
    then show ?case by simp
  next
    case (Suc k)
    then have "n - k = Suc (n - Suc k)" by simp
    with Suc show ?case
      by (simp add: list_update_append)
  qed
  from this [of "m_rows (h ! a)" "m_rows (h ! a)"] show ?thesis
    by (simp add: lu_init_def Let_def)
qed

lemma lu_inv_lu_init:
  assumes "a < length h" "shaped (h ! a) dimn dimn"
  shows "lu_inv (length h) dimn h (lu_init a h)"
proof -
  have "m_rows (h ! a) = dimn" using assms(2) by (simp add: shaped_def)
  then have "res_P (lu_init a h) = [0..<dimn]" by (simp add: res_P_lu_init)
  moreover have "heap (lu_init a h) = h @ [h ! a]" by (simp add: lu_init_def Let_def)
  ultimately show ?thesis using assms by (simp add: lu_inv_def)
qed

lemma lu_step_cases:
  "lu_step r dimn i s =
     (if \<bar>LU_get r (pivot r dimn i s) i i\<bar> < tol then Inl (SingularMatrix i, pivot r dimn i s)
      else Inr (eliminate r dimn i (pivot r dimn i s)))"
  by (simp add: lu_step_def Let_def)

lemma lu_inv_lu_step:
  assumes "lu_inv r dimn h s" "i < dimn"
  shows "case lu_step r dimn i s of Inl (e, s') \<Rightarrow> lu_inv r dimn h s' | Inr s' \<Rightarrow> lu_inv r dimn h s'"
  using lu_inv_pivot [OF assms] by (simp add: lu_step_cases lu_inv_eliminate)

lemma lu_inv_lu_run:
  assumes "a < length h" "shaped (h ! a) dimn dimn" "k \<le> dimn"
  shows "case lu_run a h k of Inl (e, s') \<Rightarrow> lu_inv (length h) dimn h s'
         | Inr s' \<Rightarrow> lu_inv (length h) dimn h s'"
  using assms(3)
proof (induction k)
  case 0
  show ?case using lu_inv_lu_init [OF assms(1,2)] by (simp add: lu_run_0)
next
  case (Suc k)
  have d: "m_rows (h ! a) = dimn" using assms(2) by (simp add: shaped_def)
  show ?case
  proof (cases "lu_run a h k")
    case (Inl x)
    with Suc show ?thesis by (simp add: lu_run_Suc)
  next
    case (Inr s)
    with Suc have "lu_inv (length h) dimn h s" by simp
    from lu_inv_lu_step [OF this, of k] Suc.prems Inr show ?thesis
      by (simp add: lu_run_Suc d)
  qed
qed

lemma decomposeLU_lu_run:
  "decomposeLU a h =
     (case lu_run a h (m_rows (h ! a)) of
        Inl (e, s) \<Rightarrow> (Inl e, take (length h) (heap s))
      | Inr s \<Rightarrow>
          (Inr \<lparr>LU = heap s ! length h, P = res_P s, toggleSign = res_toggleSign s\<rparr>,
           take (length h) (heap s)))"
  by (simp add: decomposeLU_def lu_run_def Let_def)

lemma Matrix_inv_square_shaped:
  "Matrix_inv M \<Longrightarrow> m_rows M = m_cols M \<Longrightarrow> shaped M (m_rows M) (m_rows M)"
  by (simp add: Matrix_inv_def shaped_def)

text \<open>
  C8: \<open>decomposeLU\<close> never mutates its argument: whether the call returns or throws, the
  store the caller finds afterwards is the store it passed, so the dimensions and every
  element of the matrix at \<open>a\<close> are unchanged.
\<close>

theorem decomposeLU_frame:
  fixes h :: "'a::linordered_field Matrix list"
  assumes "a < length h" and "Matrix_inv (h ! a)" and "m_rows (h ! a) = m_cols (h ! a)"
  shows "snd (decomposeLU a h) = h \<and> snd (decomposeLU a h) ! a = h ! a"
proof -
  have sh: "shaped (h ! a) (m_rows (h ! a)) (m_rows (h ! a))"
    using assms(2,3) by (rule Matrix_inv_square_shaped)
  from lu_inv_lu_run [OF assms(1) sh order_refl]
  have "snd (decomposeLU a h) = h"
    by (auto simp: decomposeLU_lu_run lu_inv_def split: sum.splits prod.splits)
  then show ?thesis by simp
qed

text \<open>
  C7: when \<open>decomposeLU\<close> succeeds on a square matrix, the returned \<open>P\<close> is a permutation
  of \<open>[0, dimension)\<close>: it has \<open>dimension\<close> entries and every index below \<open>dimension\<close>
  occurs in it exactly once.
\<close>

theorem decomposeLU_P_permutation:
  fixes h :: "'a::linordered_field Matrix list"
  assumes "a < length h" and "Matrix_inv (h ! a)" and "m_rows (h ! a) = m_cols (h ! a)"
    and "fst (decomposeLU a h) = Inr res"
  shows "length (P res) = m_rows (h ! a) \<and> set (P res) = {0..<m_rows (h ! a)} \<and>
         (\<forall>k<m_rows (h ! a). count_list (P res) k = 1)"
proof -
  let ?n = "m_rows (h ! a)"
  have sh: "shaped (h ! a) ?n ?n"
    using assms(2,3) by (rule Matrix_inv_square_shaped)
  from assms(4) obtain s where s: "lu_run a h ?n = Inr s" and P: "P res = res_P s"
    by (auto simp: decomposeLU_lu_run split: sum.splits prod.splits)
  from lu_inv_lu_run [OF assms(1) sh order_refl] s have inv: "lu_inv (length h) ?n h s"
    by simp
  then have l: "length (P res) = ?n" and d: "distinct (P res)" and st: "set (P res) = {0..<?n}"
    by (simp_all add: lu_inv_def P)
  have "count_list (P res) k = 1" if "k < ?n" for k
  proof -
    from that st have "k \<in> set (P res)" by simp
    with d show ?thesis by (rule distinct_count_list_1)
  qed
  with l st show ?thesis by simp
qed

lemma toggleSign_lu_run:
  "lu_run a h k = Inr s \<Longrightarrow>
     res_toggleSign s = (- 1) ^ length (filter (swapped_at a h) [0..<k])"
proof (induction k arbitrary: s)
  case 0
  then show ?case by (auto simp: lu_run_0 lu_init_def Let_def)
next
  case (Suc k)
  let ?r = "length h" and ?n = "m_rows (h ! a)"
  from Suc.prems obtain t where t: "lu_run a h k = Inr t" and st: "lu_step ?r ?n k t = Inr s"
    by (auto simp: lu_run_Suc split: sum.splits)
  from st have s: "s = eliminate ?r ?n k (pivot ?r ?n k t)"
    by (simp add: lu_step_cases split: if_splits)
  have sw: "swapped_at a h k = (find_pivot ?r ?n k t \<noteq> k)"
    by (simp add: swapped_at_def t)
  have "res_toggleSign s = res_toggleSign (pivot ?r ?n k t)"
    by (simp add: s eliminate_fields)
  also have "\<dots> = (if swapped_at a h k then - res_toggleSign t else res_toggleSign t)"
    by (simp add: pivot_def Let_def sw swap_rows_fields)
  also have "res_toggleSign t = (- 1) ^ length (filter (swapped_at a h) [0..<k])"
    using t by (rule Suc.IH)
  finally show ?case by simp
qed

text \<open>
  C9: when \<open>decomposeLU\<close> succeeds on a square matrix, the returned \<open>toggleSign\<close> is
  \<open>(-1)^s\<close>, where \<open>s\<close> counts the passes at which \<open>maxIndex \<noteq> i\<close>, that is, the row
  swaps performed.
\<close>

theorem decomposeLU_toggleSign:
  fixes h :: "'a::linordered_field Matrix list"
  assumes "a < length h" and "Matrix_inv (h ! a)" and "m_rows (h ! a) = m_cols (h ! a)"
    and "fst (decomposeLU a h) = Inr res"
  shows "toggleSign res = (- 1) ^ swap_count a h"
proof -
  from assms(4) obtain s where s: "lu_run a h (m_rows (h ! a)) = Inr s"
    and t: "toggleSign res = res_toggleSign s"
    by (auto simp: decomposeLU_lu_run split: sum.splits prod.splits)
  show ?thesis
    unfolding t swap_count_def using s by (rule toggleSign_lu_run)
qed

lemma lu_run_Inl_iff:
  "(lu_run a h n = Inl x) =
     (\<exists>i<n. \<exists>s. lu_run a h i = Inr s \<and> lu_step (length h) (m_rows (h ! a)) i s = Inl x)"
proof (induction n)
  case 0
  show ?case by (simp add: lu_run_0)
next
  case (Suc n)
  show ?case
  proof (cases "lu_run a h n")
    case (Inl y)
    then have no: "\<not> (\<exists>s. lu_run a h n = Inr s \<and> lu_step (length h) (m_rows (h ! a)) n s = Inl x)"
      by simp
    have "(lu_run a h (Suc n) = Inl x) = (lu_run a h n = Inl x)"
      using Inl by (simp add: lu_run_Suc)
    also have "\<dots> = (\<exists>i<n. \<exists>s. lu_run a h i = Inr s \<and> lu_step (length h) (m_rows (h ! a)) i s = Inl x)"
      by (rule Suc.IH)
    also have "\<dots> = (\<exists>i<Suc n. \<exists>s. lu_run a h i = Inr s \<and> lu_step (length h) (m_rows (h ! a)) i s = Inl x)"
      using no by (auto simp: less_Suc_eq)
    finally show ?thesis .
  next
    case (Inr t)
    then have "lu_run a h n \<noteq> Inl x" by simp
    then have no: "\<not> (\<exists>i<n. \<exists>s. lu_run a h i = Inr s \<and> lu_step (length h) (m_rows (h ! a)) i s = Inl x)"
      using Suc.IH by blast
    have "(lu_run a h (Suc n) = Inl x) = (lu_step (length h) (m_rows (h ! a)) n t = Inl x)"
      using Inr by (simp add: lu_run_Suc)
    also have "\<dots> = (\<exists>i<Suc n. \<exists>s. lu_run a h i = Inr s \<and> lu_step (length h) (m_rows (h ! a)) i s = Inl x)"
      using no Inr by (auto simp: less_Suc_eq)
    finally show ?thesis .
  qed
qed

lemma decomposeLU_throws_iff:
  fixes h :: "'a::linordered_field Matrix list"
  shows "(fst (decomposeLU a h) = Inl e) =
     (\<exists>i<m_rows (h ! a). e = SingularMatrix i \<and>
        (\<exists>s. lu_run a h i = Inr s \<and>
           \<bar>LU_get (length h) (pivot (length h) (m_rows (h ! a)) i s) i i\<bar> < tol))"
proof -
  let ?r = "length h" and ?n = "m_rows (h ! a)"
  have "(fst (decomposeLU a h) = Inl e) = (\<exists>t. lu_run a h ?n = Inl (e, t))"
    by (auto simp: decomposeLU_lu_run split: sum.splits prod.splits)
  also have "\<dots> = (\<exists>t. \<exists>i<?n. \<exists>s. lu_run a h i = Inr s \<and> lu_step ?r ?n i s = Inl (e, t))"
    by (simp only: lu_run_Inl_iff)
  also have "\<dots> = (\<exists>i<?n. e = SingularMatrix i \<and>
        (\<exists>s. lu_run a h i = Inr s \<and> \<bar>LU_get ?r (pivot ?r ?n i s) i i\<bar> < tol))"
    by (auto simp: lu_step_cases split: if_splits)
  finally show ?thesis .
qed









lemma decomposeLU_example:
  "fst (decomposeLU 0 [\<lparr>m_rows = 2, m_cols = 2, m_data = [1, 2, 3, 4 :: real]\<rparr>]) =
     Inr \<lparr>LU = \<lparr>m_rows = 2, m_cols = 2, m_data = [3, 4, 1 / 3, 2 / 3]\<rparr>,
          P = [1, 0], toggleSign = - 1\<rparr>"
  by code_simp

lemma example_hyps:
  "0 < length [\<lparr>m_rows = 2, m_cols = 2, m_data = [1, 2, 3, 4 :: real]\<rparr>]"
  "Matrix_inv (([\<lparr>m_rows = 2, m_cols = 2, m_data = [1, 2, 3, 4 :: real]\<rparr>]) ! 0)"
  "m_rows (([\<lparr>m_rows = 2, m_cols = 2, m_data = [1, 2, 3, 4 :: real]\<rparr>]) ! 0) =
   m_cols (([\<lparr>m_rows = 2, m_cols = 2, m_data = [1, 2, 3, 4 :: real]\<rparr>]) ! 0)"
  by (simp_all add: Matrix_inv_def INT_MAX_def)

theorem decomposeLU_frame_witness:
  "snd (decomposeLU 0 [\<lparr>m_rows = 2, m_cols = 2, m_data = [1, 2, 3, 4 :: real]\<rparr>]) =
     [\<lparr>m_rows = 2, m_cols = 2, m_data = [1, 2, 3, 4]\<rparr>]"
  using decomposeLU_frame [OF example_hyps] by simp

theorem decomposeLU_P_permutation_witness:
  "fst (decomposeLU 0 [\<lparr>m_rows = 2, m_cols = 2, m_data = [1, 2, 3, 4 :: real]\<rparr>]) =
     Inr \<lparr>LU = \<lparr>m_rows = 2, m_cols = 2, m_data = [3, 4, 1 / 3, 2 / 3]\<rparr>,
          P = [1, 0], toggleSign = - 1\<rparr> \<and>
   length [1, 0 :: nat] = 2 \<and> set [1, 0 :: nat] = {0..<2} \<and>
   count_list [1, 0 :: nat] 0 = 1 \<and> count_list [1, 0 :: nat] 1 = 1"
  using decomposeLU_P_permutation [OF example_hyps decomposeLU_example] decomposeLU_example
  by simp

theorem decomposeLU_toggleSign_witness:
  "swap_count 0 [\<lparr>m_rows = 2, m_cols = 2, m_data = [1, 2, 3, 4 :: real]\<rparr>] = 1 \<and>
   (- 1 :: int) = (- 1) ^ swap_count 0 [\<lparr>m_rows = 2, m_cols = 2, m_data = [1, 2, 3, 4 :: real]\<rparr>]"
proof -
  have "swap_count 0 [\<lparr>m_rows = 2, m_cols = 2, m_data = [1, 2, 3, 4 :: real]\<rparr>] = 1"
    by code_simp
  with decomposeLU_toggleSign [OF example_hyps decomposeLU_example] show ?thesis by simp
qed


text \<open>
  C3: \<open>decomposeLU\<close> throws the singular-matrix error with pivot index \<open>i\<close> exactly when
  the passes before \<open>i\<close> complete and, at pass \<open>i\<close> after the row pivoting, the magnitude
  of the diagonal entry \<open>(i,i)\<close> is below \<open>1e-15\<close>; no other error is thrown, and a throw
  returns no result. Decomposing \<open>[[1,2],[0,0]]\<close> throws with pivot index 1.
\<close>

theorem decomposeLU_singular:
  fixes h :: "'a::linordered_field Matrix list"
  assumes "a < length h" and "Matrix_inv (h ! a)" and "m_rows (h ! a) = m_cols (h ! a)"
  shows "((fst (decomposeLU a h) = Inl e) =
      (\<exists>i<m_rows (h ! a). e = SingularMatrix i \<and>
        (\<exists>s. lu_run a h i = Inr s \<and>
           \<bar>LU_get (length h) (pivot (length h) (m_rows (h ! a)) i s) i i\<bar> < tol))) \<and>
    fst (decomposeLU 0 [\<lparr>m_rows = 2, m_cols = 2, m_data = [1, 2, 0, 0 :: real]\<rparr>])
      = Inl (SingularMatrix 1)"
proof
  show "(fst (decomposeLU a h) = Inl e) =
      (\<exists>i<m_rows (h ! a). e = SingularMatrix i \<and>
        (\<exists>s. lu_run a h i = Inr s \<and>
           \<bar>LU_get (length h) (pivot (length h) (m_rows (h ! a)) i s) i i\<bar> < tol))"
    by (rule decomposeLU_throws_iff)
  show "fst (decomposeLU 0 [\<lparr>m_rows = 2, m_cols = 2, m_data = [1, 2, 0, 0 :: real]\<rparr>])
      = Inl (SingularMatrix 1)"
    by code_simp
qed

theorem decomposeLU_singular_witness:
  "fst (decomposeLU 0 [\<lparr>m_rows = 2, m_cols = 2, m_data = [1, 2, 3, 4 :: real]\<rparr>])
     \<noteq> Inl (SingularMatrix 0) \<and>
   fst (decomposeLU 0 [\<lparr>m_rows = 2, m_cols = 2, m_data = [1, 2, 0, 0 :: real]\<rparr>])
      = Inl (SingularMatrix 1)"
proof -
  note t = decomposeLU_singular [OF example_hyps, of "SingularMatrix 0"]
  have "fst (decomposeLU 0 [\<lparr>m_rows = 2, m_cols = 2, m_data = [1, 2, 3, 4 :: real]\<rparr>])
     \<noteq> Inl (SingularMatrix 0)"
    by (simp add: decomposeLU_example)
  with t show ?thesis by simp
qed

text \<open>
  C1 fails on the code. The input \<open>[[2,0,0],[1,0,1],[2,1,0]]\<close> is non-singular and is
  decomposed without error, with a row swap at pass 1. The swap loop starts at column
  \<open>i\<close>, so the multipliers already stored in columns below \<open>i\<close> stay in their rows while
  \<open>P\<close> is swapped: entry \<open>(1,0)\<close> of \<open>L\<cdot>U\<close> is 1, entry \<open>(1,0)\<close> of \<open>PA\<close> is 2, and
  \<open>solve\<close> for the right-hand side \<open>A\<cdot>(1,1,1) = (2,2,3)\<close> returns \<open>(1,2,0)\<close>.
\<close>

theorem decomposeLU_reconstruction_fails:
  "fst (decomposeLU 0 [\<lparr>m_rows = 3, m_cols = 3, m_data = [2, 0, 0, 1, 0, 1, 2, 1, 0 :: real]\<rparr>]) =
     Inr \<lparr>LU = \<lparr>m_rows = 3, m_cols = 3, m_data = [2, 0, 0, 1 / 2, 1, 0, 1, 0, 1]\<rparr>,
          P = [0, 2, 1], toggleSign = - 1\<rparr> \<and>
   spec_LU_product \<lparr>LU = \<lparr>m_rows = 3, m_cols = 3, m_data = [2, 0, 0, 1 / 2, 1, 0, 1, 0, 1 :: real]\<rparr>,
          P = [0, 2, 1], toggleSign = - 1\<rparr> 1 0 = 1 \<and>
   spec_PA \<lparr>m_rows = 3, m_cols = 3, m_data = [2, 0, 0, 1, 0, 1, 2, 1, 0 :: real]\<rparr>
      \<lparr>LU = \<lparr>m_rows = 3, m_cols = 3, m_data = [2, 0, 0, 1 / 2, 1, 0, 1, 0, 1 :: real]\<rparr>,
          P = [0, 2, 1], toggleSign = - 1\<rparr> 1 0 = 2 \<and>
   solve \<lparr>LU = \<lparr>m_rows = 3, m_cols = 3, m_data = [2, 0, 0, 1 / 2, 1, 0, 1, 0, 1 :: real]\<rparr>,
          P = [0, 2, 1], toggleSign = - 1\<rparr> [2, 2, 3] = Inr [1, 2, 0]"
  by code_simp

end
